theory Spec2Isabelle
  imports Main "HOL-Library.Sublist"
begin

section \<open>Text primitives\<close>

text \<open>
  A Python \<open>str\<close> is modelled as a \<open>string\<close>: a list of 8-bit characters, each read
  as the code point of that number. The character classes below are Python's own
  for the code points below 256.
\<close>

definition code_point :: "char \<Rightarrow> nat" where
  "code_point c = of_char c"

text \<open>
  \<open>str.isspace\<close>, which \<open>str.split()\<close>, \<open>str.strip()\<close> and the regex class \<open>\s\<close> share:
  tab to carriage return, the four separators 28 to 31, space, NEL and the
  no-break space.
\<close>

definition isspace :: "char \<Rightarrow> bool" where
  "isspace c =
     (let n = code_point c
      in (9 \<le> n \<and> n \<le> 13) \<or> (28 \<le> n \<and> n \<le> 32) \<or> n = 133 \<or> n = 160)"

text \<open>The regex class \<open>\d\<close>: the decimal digits.\<close>

definition isdigit :: "char \<Rightarrow> bool" where
  "isdigit c = (let n = code_point c in 48 \<le> n \<and> n \<le> 57)"

text \<open>
  The regex class \<open>\w\<close>: the underscore and every alphanumeric character, which
  below 256 are the ASCII letters and digits, the ordinal indicators, the micro sign,
  the superscript digits, the vulgar fractions and the accented letters.
\<close>

definition isword :: "char \<Rightarrow> bool" where
  "isword c =
     (let n = code_point c
      in (48 \<le> n \<and> n \<le> 57) \<or> (65 \<le> n \<and> n \<le> 90) \<or> n = 95 \<or> (97 \<le> n \<and> n \<le> 122)
         \<or> n = 170 \<or> n = 178 \<or> n = 179 \<or> n = 181 \<or> n = 185 \<or> n = 186
         \<or> (188 \<le> n \<and> n \<le> 190) \<or> (192 \<le> n \<and> n \<le> 214) \<or> (216 \<le> n \<and> n \<le> 246)
         \<or> (248 \<le> n \<and> n \<le> 255))"

text \<open>
  \<open>str.isupper\<close> on one character and \<open>str.lower()\<close>: the upper-case letters, ASCII
  and accented, move up by 32.
\<close>

definition isupper :: "char \<Rightarrow> bool" where
  "isupper c =
     (let n = code_point c
      in (65 \<le> n \<and> n \<le> 90) \<or> (192 \<le> n \<and> n \<le> 222 \<and> n \<noteq> 215))"

definition lower_char :: "char \<Rightarrow> char" where
  "lower_char c = (if isupper c then char_of (code_point c + 32) else c)"

definition lower :: "string \<Rightarrow> string" where
  "lower s = map lower_char s"

text \<open>
  \<open>sent.split()\<close>: the maximal runs of characters that are not whitespace, in order.
  \<open>cur\<close> is the run being read.
\<close>

fun split_from :: "string \<Rightarrow> string \<Rightarrow> string list" where
  "split_from cur [] = (if cur = [] then [] else [cur])"
| "split_from cur (c # cs) =
     (if isspace c then (if cur = [] then split_from [] cs else cur # split_from [] cs)
      else split_from (cur @ [c]) cs)"

definition split :: "string \<Rightarrow> string list" where
  "split s = split_from [] s"

text \<open>\<open>len(sent.split())\<close>, a Python int.\<close>

definition word_count :: "string \<Rightarrow> int" where
  "word_count s = int (length (split s))"

text \<open>\<open>str.strip()\<close>: whitespace removed at both ends.\<close>

definition strip :: "string \<Rightarrow> string" where
  "strip s = rev (dropWhile isspace (rev (dropWhile isspace s)))"

text \<open>Python's \<open>kw in s\<close> on strings is \<^term>\<open>sublist kw s\<close>.\<close>

section \<open>Regular expressions\<close>

text \<open>
  The program calls \<open>re.findall\<close> with three fixed patterns. A pattern is modelled by
  its matcher: given the text and a position, the length of the match that Python's
  backtracking search finds there and the value \<open>findall\<close> reports for it (the
  pattern's groups), or \<open>None\<close> when the pattern does not match at that position.

  \<open>finditer_from\<close> is the scan that \<open>re.finditer\<close> and \<open>re.findall\<close> share: the
  leftmost match is taken, and the search resumes where it ended. Each entry is
  \<open>(start, length, groups)\<close>. None of the three patterns matches the empty string,
  so no position at or after the end of the text is tried.
\<close>

type_synonym 'g matcher = "string \<Rightarrow> nat \<Rightarrow> (nat \<times> 'g) option"

function finditer_from :: "'g matcher \<Rightarrow> string \<Rightarrow> nat \<Rightarrow> (nat \<times> nat \<times> 'g) list" where
  "finditer_from m text pos =
     (if pos < length text then
        (case m text pos of
           None \<Rightarrow> finditer_from m text (pos + 1)
         | Some (n, g) \<Rightarrow> (pos, n, g) # finditer_from m text (pos + max 1 n))
      else [])"
  by pat_completeness auto
termination
  by (relation "measure (\<lambda>(m, text, pos). length text - pos)") auto

declare finditer_from.simps [simp del]

definition finditer :: "'g matcher \<Rightarrow> string \<Rightarrow> (nat \<times> nat \<times> 'g) list" where
  "finditer m text = finditer_from m text 0"

text \<open>
  The matches of a scan lie in the text from left to right without overlap: each
  starts at or after \<open>p\<close>, the end of the one before.
\<close>

fun in_order :: "nat \<Rightarrow> (nat \<times> nat \<times> 'g) list \<Rightarrow> bool" where
  "in_order p [] = True"
| "in_order p ((start, n, g) # ms) = (p \<le> start \<and> in_order (start + n) ms)"

definition findall :: "'g matcher \<Rightarrow> string \<Rightarrow> 'g list" where
  "findall m text = map (\<lambda>(start, n, g). g) (finditer m text)"

text \<open>
  \<open>(https?://[^\s]+)\<close>. The scheme is \<open>http://\<close> or \<open>https://\<close>; the body is the
  longest run of characters that are not whitespace, and has at least one. The one
  group is the whole match.
\<close>

definition scheme_length :: "string \<Rightarrow> nat option" where
  "scheme_length s =
     (if prefix ''https://'' s then Some 8
      else if prefix ''http://'' s then Some 7
      else None)"

definition url_match :: "string \<Rightarrow> nat option" where
  "url_match s =
     (case scheme_length s of
        None \<Rightarrow> None
      | Some k \<Rightarrow>
          (let body = takeWhile (\<lambda>c. \<not> isspace c) (drop k s)
           in if body = [] then None else Some (k + length body)))"

definition url_regex :: "string matcher" where
  "url_regex text pos =
     (case url_match (drop pos text) of
        None \<Rightarrow> None
      | Some n \<Rightarrow> Some (n, take n (drop pos text)))"

text \<open>
  \<open>\b\d+(\.\d+)?\b\<close>. The digits start at a word boundary, so the character before
  them is not a word character. The optional group is a dot and more digits; it takes
  part in the match when a word boundary follows it, and otherwise the match ends after
  the first digits, where the dot makes the boundary. The pattern has one group, so
  \<open>findall\<close> reports the text of that group, which is the empty string when the group
  takes no part in the match.
\<close>

definition number_regex :: "string matcher" where
  "number_regex text pos =
     (let s = drop pos text;
          digits = takeWhile isdigit s;
          r = drop (length digits) s
      in if digits = [] \<or> (pos > 0 \<and> isword (text ! (pos - 1))) then None
         else case r of
           [] \<Rightarrow> Some (length digits, [])
         | c # r' \<Rightarrow>
             (let fraction = takeWhile isdigit r';
                  after = drop (length fraction) r'
              in if c = CHR ''.'' then
                   (if fraction \<noteq> [] \<and> (after = [] \<or> \<not> isword (hd after))
                    then Some (length digits + 1 + length fraction, c # fraction)
                    else Some (length digits, []))
                 else if isword c then None
                 else Some (length digits, [])))"

text \<open>
  \<open>(Reference[s]?|Cite[d]?|Source[s]?)[:\s]+(.+)\<close> with \<open>re.IGNORECASE\<close>. After the
  keyword comes a run of colons and whitespace, then the rest of the line. The run is
  as long as it can be while one character that is not a newline is left for the
  second group. \<open>findall\<close> reports the pair of the two groups.
\<close>

definition keyword_length :: "string \<Rightarrow> nat option" where
  "keyword_length s =
     (let l = lower s;
          optional = (\<lambda>k c. if prefix [c] (drop k l) then k + 1 else k)
      in if prefix ''reference'' l then Some (optional 9 CHR ''s'')
         else if prefix ''cite'' l then Some (optional 4 CHR ''d'')
         else if prefix ''source'' l then Some (optional 6 CHR ''s'')
         else None)"

definition reference_regex :: "(string \<times> string) matcher" where
  "reference_regex text pos =
     (let s = drop pos text
      in case keyword_length s of
           None \<Rightarrow> None
         | Some k \<Rightarrow>
             (let rest = drop k s;
                  run = takeWhile (\<lambda>c. c = CHR '':'' \<or> isspace c) rest;
                  ends = filter (\<lambda>j. j < length rest \<and> rest ! j \<noteq> CHR 0x0A)
                           (rev [1 ..< length run + 1])
              in case ends of
                   [] \<Rightarrow> None
                 | j # _ \<Rightarrow>
                     (let line = takeWhile (\<lambda>c. c \<noteq> CHR 0x0A) (drop j rest)
                      in Some (k + j + length line, (take k s, line)))))"

section \<open>Extraction of links, data points and references\<close>

text \<open>
  \<open>sent_tokenize\<close> is NLTK's sentence tokenizer, a library outside the program: the
  functions that call it take it as their first argument.

  The loop of \<open>extract_links_and_data\<close> over the sentences, on \<open>data_points\<close>. The inner
  loop appends one entry for each element of \<open>numbers\<close>.
\<close>

fun data_points_loop :: "string list \<Rightarrow> string list \<Rightarrow> string list" where
  "data_points_loop data_points [] = data_points"
| "data_points_loop data_points (sentence # rest) =
     (let numbers = findall number_regex sentence
      in if numbers \<noteq> []
         then data_points_loop
                (data_points @ map (\<lambda>num. num @ '' -> '' @ strip sentence) numbers) rest
         else data_points_loop data_points rest)"

definition extract_links_and_data ::
    "(string \<Rightarrow> string list) \<Rightarrow> string \<Rightarrow> string list \<times> string list \<times> (string \<times> string) list" where
  "extract_links_and_data sent_tokenize text =
     (let urls = findall url_regex text;
          data_points = data_points_loop [] (sent_tokenize text);
          references = findall reference_regex text
      in (urls, data_points, references))"

section \<open>The greedy chunker\<close>

text \<open>
  The loop of \<open>chunk_text\<close> over the sentences, on its state
  \<open>(chunks, current_chunk, current_tokens)\<close>.
\<close>

fun chunk_loop :: "int \<Rightarrow> string list \<Rightarrow> string list \<times> string \<times> int
    \<Rightarrow> string list \<times> string \<times> int" where
  "chunk_loop max_tokens [] st = st"
| "chunk_loop max_tokens (sent # rest) (chunks, current_chunk, current_tokens) =
     (let sent_tokens = word_count sent
      in if current_tokens + sent_tokens > max_tokens
         then chunk_loop max_tokens rest (chunks @ [current_chunk], sent, sent_tokens)
         else chunk_loop max_tokens rest
                (chunks, current_chunk @ '' '' @ sent, current_tokens + sent_tokens))"

definition chunk_text :: "(string \<Rightarrow> string list) \<Rightarrow> string \<Rightarrow> int \<Rightarrow> string list" where
  "chunk_text sent_tokenize text max_tokens =
     (case chunk_loop max_tokens (sent_tokenize text) ([], [], 0) of
        (chunks, current_chunk, current_tokens) \<Rightarrow>
          if current_chunk \<noteq> [] then chunks @ [current_chunk] else chunks)"

text \<open>
  The same loop with the sentences of each chunk kept apart: where \<open>chunk_loop\<close>
  appends a sentence to a string, \<open>group_loop\<close> appends it to a list.
  \<open>chunk_sentences\<close> is the sentence sequence of each chunk.
\<close>

fun group_loop :: "int \<Rightarrow> string list \<Rightarrow> string list list \<times> string list \<times> int
    \<Rightarrow> string list list \<times> string list \<times> int" where
  "group_loop max_tokens [] st = st"
| "group_loop max_tokens (sent # rest) (groups, current, current_tokens) =
     (let sent_tokens = word_count sent
      in if current_tokens + sent_tokens > max_tokens
         then group_loop max_tokens rest (groups @ [current], [sent], sent_tokens)
         else group_loop max_tokens rest
                (groups, current @ [sent], current_tokens + sent_tokens))"

definition chunk_sentences ::
    "(string \<Rightarrow> string list) \<Rightarrow> string \<Rightarrow> int \<Rightarrow> string list list" where
  "chunk_sentences sent_tokenize text max_tokens =
     (case group_loop max_tokens (sent_tokenize text) ([], [], 0) of
        (groups, current, current_tokens) \<Rightarrow>
          if current \<noteq> [] then groups @ [current] else groups)"

text \<open>
  The string that the loop builds from the sentences of a chunk. The first running
  chunk starts as the empty string, so each of its sentences follows a space
  (\<open>spaced\<close>); a later chunk starts as a sentence, and the others follow a space each
  (\<open>joined\<close>).
\<close>

definition spaced :: "string list \<Rightarrow> string" where
  "spaced g = concat (map (\<lambda>s. '' '' @ s) g)"

fun joined :: "string list \<Rightarrow> string" where
  "joined [] = []"
| "joined (s # ss) = s @ spaced ss"

fun chunk_strings :: "string list list \<Rightarrow> string list" where
  "chunk_strings [] = []"
| "chunk_strings (g # gs) = spaced g # map joined gs"

text \<open>The running chunk as a string, given the chunks emitted before it.\<close>

definition running_string :: "string list list \<Rightarrow> string list \<Rightarrow> string" where
  "running_string gs g = (if gs = [] then spaced g else joined g)"

text \<open>
  The greedy algorithm as the specification words it, on lists of sentences: a
  sentence joins the running chunk as long as the words of the running chunk and its
  own stay within the budget; when they would exceed it, the running chunk is emitted
  and a new chunk starts with exactly that sentence. The running chunk left at the end
  is emitted when it holds a sentence.
\<close>

definition total_words :: "string list \<Rightarrow> int" where
  "total_words g = sum_list (map word_count g)"

fun greedy_from :: "int \<Rightarrow> string list \<Rightarrow> string list \<Rightarrow> string list list" where
  "greedy_from budget running [] = (if running = [] then [] else [running])"
| "greedy_from budget running (s # ss) =
     (if total_words running + word_count s > budget
      then running # greedy_from budget [s] ss
      else greedy_from budget (running @ [s]) ss)"

definition greedy_chunks :: "int \<Rightarrow> string list \<Rightarrow> string list list" where
  "greedy_chunks budget sentences = greedy_from budget [] sentences"

section \<open>The summarization client\<close>

text \<open>
  The remote call \<open>client.chat.completions.create\<close> either raises or returns a
  completion object. What it raises is an instance of \<open>Exception\<close>, or one of the few
  other instances of \<open>BaseException\<close> (\<open>KeyboardInterrupt\<close>, \<open>SystemExit\<close>), which
  \<open>except Exception\<close> lets through. The completion is read along
  \<open>completion.choices[0].message.content\<close>: the list of choices may be empty and the
  content may be \<open>None\<close>.
\<close>

datatype raised = Exception string | BaseException string

record chat_message =
  content :: "string option"

record chat_choice =
  message :: chat_message

record chat_completion =
  choices :: "chat_choice list"

datatype call_result = Raise raised | Return chat_completion

text \<open>
  The client is a function from the prompt to the outcome of the call; the model
  name, the temperature and the token limit of the request are constants of the
  source. The line that the handler prints is not part of the model.
\<close>

definition prompt :: "string \<Rightarrow> string \<Rightarrow> string" where
  "prompt text context_name =
     ''Summarize the following research paper content. Context: '' @ context_name @ ''. ''
     @ ''Use only the information from the text and avoid generalizations. ''
     @ ''Include any links, data, or proofs mentioned in the content.'' @ [CHR 0x0A, CHR 0x0A]
     @ ''Text:'' @ [CHR 0x0A] @ text @ [CHR 0x0A, CHR 0x0A]"

definition api_failure :: string where
  "api_failure = ''Failed to summarize due to API error.''"

text \<open>
  \<open>summarize_with_groq\<close>. Within the \<open>try\<close> block an empty list of choices raises
  \<open>IndexError\<close> and a missing content raises \<open>AttributeError\<close>; the handler catches
  both. \<open>Inl\<close> is an exception that leaves the function.
\<close>

definition summarize_with_groq ::
    "(string \<Rightarrow> call_result) \<Rightarrow> string \<Rightarrow> string \<Rightarrow> raised + string" where
  "summarize_with_groq client text context_name =
     (case client (prompt text context_name) of
        Raise (Exception e) \<Rightarrow> Inr api_failure
      | Raise (BaseException e) \<Rightarrow> Inl (BaseException e)
      | Return completion \<Rightarrow>
          (case choices completion of
             [] \<Rightarrow> Inr api_failure
           | first # others \<Rightarrow>
               (case content (message first) of
                  None \<Rightarrow> Inr api_failure
                | Some out \<Rightarrow> Inr (strip out))))"

section \<open>The short summary\<close>

text \<open>
  \<open>KEYWORDS\<close> comes from the configuration module \<open>info\<close>; it is the second argument.
  \<open>ev_sentences\<close> is the list comprehension of \<open>generate_short_summary\<close>.
\<close>

definition ev_sentences :: "string list \<Rightarrow> string list \<Rightarrow> string list" where
  "ev_sentences keywords sentences =
     filter (\<lambda>sent. \<exists>kw \<in> set keywords. sublist kw (lower sent)) sentences"

text \<open>
  The loop over \<open>ev_sentences\<close>, on its state \<open>(short_summary, current_length)\<close>; the
  \<open>break\<close> returns the state as it is.
\<close>

fun summary_loop :: "int \<Rightarrow> string list \<Rightarrow> string \<times> int \<Rightarrow> string \<times> int" where
  "summary_loop max_length [] st = st"
| "summary_loop max_length (sent # rest) (short_summary, current_length) =
     (let words = word_count sent
      in if current_length + words \<le> max_length
         then summary_loop max_length rest
                (short_summary @ sent @ '' '', current_length + words)
         else (short_summary, current_length))"

definition generate_short_summary ::
    "(string \<Rightarrow> string list) \<Rightarrow> string list \<Rightarrow> string \<Rightarrow> int \<Rightarrow> string" where
  "generate_short_summary sent_tokenize keywords text max_length =
     strip (fst (summary_loop max_length
                   (ev_sentences keywords (sent_tokenize text)) ([], 0)))"

text \<open>
  The same loop with the sentences it appends kept as a list: \<open>summary_sentences\<close>
  are the sentences included in the short summary.
\<close>

fun included_loop :: "int \<Rightarrow> string list \<Rightarrow> string list \<times> int \<Rightarrow> string list \<times> int" where
  "included_loop max_length [] st = st"
| "included_loop max_length (sent # rest) (included, current_length) =
     (let words = word_count sent
      in if current_length + words \<le> max_length
         then included_loop max_length rest (included @ [sent], current_length + words)
         else (included, current_length))"

definition summary_sentences ::
    "(string \<Rightarrow> string list) \<Rightarrow> string list \<Rightarrow> string \<Rightarrow> int \<Rightarrow> string list" where
  "summary_sentences sent_tokenize keywords text max_length =
     fst (included_loop max_length (ev_sentences keywords (sent_tokenize text)) ([], 0))"

text \<open>The string that the loop builds from the sentences it includes.\<close>

definition summary_string :: "string list \<Rightarrow> string" where
  "summary_string included = concat (map (\<lambda>sent. sent @ '' '') included)"

section \<open>The loop over the chunks of a file\<close>

text \<open>\<open>str(n)\<close> for a number that is not negative: its decimal digits.\<close>

function decimal :: "nat \<Rightarrow> string" where
  "decimal n =
     (if n < 10 then [char_of (48 + n)]
      else decimal (n div 10) @ [char_of (48 + n mod 10)])"
  by pat_completeness auto
termination
  by (relation "measure (\<lambda>n. n)") auto

declare decimal.simps [simp del]

text \<open>
  The two f-strings of the loop with what follows them: the section of chunk \<open>i\<close>
  (counted from 0) in \<open>full_summary\<close> and in \<open>ev_disadvantages_summary\<close>.
\<close>

definition full_section :: "nat \<Rightarrow> string \<Rightarrow> string" where
  "full_section i summary =
     [CHR 0x0A] @ ''### Chunk '' @ decimal (i + 1) @ '' Summary:'' @ [CHR 0x0A] @ summary"

definition ev_section :: "nat \<Rightarrow> string \<Rightarrow> string" where
  "ev_section i ev_summary =
     [CHR 0x0A] @ ''### Chunk '' @ decimal (i + 1) @ '' EV Disadvantages:'' @ [CHR 0x0A]
     @ ev_summary"

text \<open>
  The loop of the main script over \<open>enumerate(chunks)\<close>, on its state
  \<open>(full_summary, ev_disadvantages_summary)\<close>; \<open>i\<close> is the index of the first chunk
  left. An exception that leaves \<open>summarize_with_groq\<close> ends the loop, and the script.
  \<open>" ".join(ev_sentences)\<close> is \<^term>\<open>joined\<close> of the list.
\<close>

fun summarize_loop :: "(string \<Rightarrow> call_result) \<Rightarrow> (string \<Rightarrow> string list) \<Rightarrow> string list
    \<Rightarrow> nat \<Rightarrow> string list \<Rightarrow> string \<times> string \<Rightarrow> raised + (string \<times> string)" where
  "summarize_loop client sent_tokenize keywords i [] st = Inr st"
| "summarize_loop client sent_tokenize keywords i (chunk # rest)
       (full_summary, ev_disadvantages_summary) =
     (case summarize_with_groq client chunk ''Full PDF Summary'' of
        Inl e \<Rightarrow> Inl e
      | Inr summary \<Rightarrow>
          (let full_summary' = full_summary @ full_section i summary;
               ev = ev_sentences keywords (sent_tokenize chunk)
           in if ev \<noteq> [] then
                (case summarize_with_groq client (joined ev) ''EV Disadvantages Only'' of
                   Inl e \<Rightarrow> Inl e
                 | Inr ev_summary \<Rightarrow>
                     summarize_loop client sent_tokenize keywords (i + 1) rest
                       (full_summary', ev_disadvantages_summary @ ev_section i ev_summary))
              else summarize_loop client sent_tokenize keywords (i + 1) rest
                     (full_summary', ev_disadvantages_summary)))"

definition summarize_chunks :: "(string \<Rightarrow> call_result) \<Rightarrow> (string \<Rightarrow> string list)
    \<Rightarrow> string list \<Rightarrow> string list \<Rightarrow> raised + (string \<times> string)" where
  "summarize_chunks client sent_tokenize keywords chunks =
     summarize_loop client sent_tokenize keywords 0 chunks ([], [])"

text \<open>
  Three clients for the examples: one whose every call fails, one that answers every
  prompt with the same text, and one that fails on the prompts that contain a given
  word and answers the others.
\<close>

definition failing_client :: "string \<Rightarrow> call_result" where
  "failing_client p = Raise (Exception ''Connection error.'')"

definition answering_client :: "string \<Rightarrow> call_result" where
  "answering_client p =
     Return \<lparr>choices = [\<lparr>message = \<lparr>content = Some '' The paper studies grid strain. ''\<rparr>\<rparr>]\<rparr>"

definition failing_on :: "string \<Rightarrow> string \<Rightarrow> call_result" where
  "failing_on word p = (if sublist word p then failing_client p else answering_client p)"

section \<open>Tokenizers for the examples\<close>

text \<open>
  Two simple tokenizers stand in for NLTK's in the examples: \<open>whole_text\<close> takes a
  text that is not empty as one sentence, and \<open>at_full_stops\<close> ends a sentence at each
  full stop.
\<close>

definition whole_text :: "string \<Rightarrow> string list" where
  "whole_text text = (if text = [] then [] else [text])"

fun sentences_from :: "string \<Rightarrow> string \<Rightarrow> string list" where
  "sentences_from cur [] = (if cur = [] then [] else [cur])"
| "sentences_from cur (c # cs) =
     (if c = CHR ''.'' then (cur @ [c]) # sentences_from [] cs
      else sentences_from (cur @ [c]) cs)"

definition at_full_stops :: "string \<Rightarrow> string list" where
  "at_full_stops text = sentences_from [] text"

section \<open>Words of concatenated strings\<close>

lemma split_from_space:
  "isspace sp \<Longrightarrow> split_from cur (a @ sp # b) = split_from cur a @ split_from [] b"
  by (induction a arbitrary: cur) auto

lemma isspace_blank: "isspace CHR '' ''"
  by (simp add: isspace_def code_point_def)

lemma split_append_blank: "split (a @ '' '' @ b) = split a @ split b"
  using split_from_space [OF isspace_blank, of "[]" a b] by (simp add: split_def)

lemma word_count_append_blank: "word_count (a @ '' '' @ b) = word_count a + word_count b"
  using split_append_blank [of a b] by (simp add: word_count_def)

lemma word_count_Nil: "word_count [] = 0"
  by (simp add: word_count_def split_def)

lemma word_count_nonneg: "0 \<le> word_count s"
  by (simp add: word_count_def)

lemma split_from_only_spaces: "\<forall>c \<in> set ws. isspace c \<Longrightarrow> split_from [] ws = []"
  by (induction ws) auto

lemma split_from_spaces: "\<forall>c \<in> set ws. isspace c \<Longrightarrow> split_from cur (a @ ws) = split_from cur a"
proof (cases ws)
  case Nil
  then show ?thesis by simp
next
  case (Cons w ws')
  assume spaces: "\<forall>c \<in> set ws. isspace c"
  with Cons have "split_from cur (a @ w # ws') = split_from cur a @ split_from [] ws'"
    by (simp add: split_from_space)
  moreover have "split_from [] ws' = []"
    using spaces Cons by (simp add: split_from_only_spaces)
  ultimately show ?thesis using Cons by simp
qed

lemma split_dropWhile: "split (dropWhile isspace s) = split s"
  by (induction s) (auto simp: split_def)

lemma split_strip: "split (strip s) = split s"
proof -
  let ?t = "dropWhile isspace s"
  have t: "?t = rev (dropWhile isspace (rev ?t)) @ rev (takeWhile isspace (rev ?t))"
    by (metis rev_append rev_rev_ident takeWhile_dropWhile_id)
  have "\<forall>c \<in> set (rev (takeWhile isspace (rev ?t))). isspace c"
    by (auto dest: set_takeWhileD)
  then have "split_from [] (rev (dropWhile isspace (rev ?t)) @ rev (takeWhile isspace (rev ?t)))
               = split_from [] (rev (dropWhile isspace (rev ?t)))"
    by (rule split_from_spaces)
  with t have "split ?t = split (strip s)"
    by (simp add: split_def strip_def)
  then show ?thesis by (simp add: split_dropWhile)
qed

lemma word_count_strip: "word_count (strip s) = word_count s"
  by (simp add: word_count_def split_strip)

section \<open>The chunks as groups of sentences\<close>

lemma spaced_snoc: "spaced (g @ [s]) = spaced g @ '' '' @ s"
  by (simp add: spaced_def)

lemma joined_snoc: "g \<noteq> [] \<Longrightarrow> joined (g @ [s]) = joined g @ '' '' @ s"
  by (cases g) (simp_all add: spaced_snoc)

lemma running_string_snoc:
  "(gs \<noteq> [] \<Longrightarrow> g \<noteq> []) \<Longrightarrow> running_string gs (g @ [s]) = running_string gs g @ '' '' @ s"
  unfolding running_string_def using spaced_snoc joined_snoc by (cases "gs = []") auto

lemma chunk_strings_snoc: "chunk_strings (gs @ [g]) = chunk_strings gs @ [running_string gs g]"
  by (cases gs) (simp_all add: running_string_def)

lemma running_string_start: "running_string (gs @ [g]) [s] = s"
  by (simp add: running_string_def spaced_def)

lemma chunk_loop_group_loop:
  assumes "gs \<noteq> [] \<Longrightarrow> g \<noteq> []"
  shows "case group_loop m ss (gs, g, t) of
           (G, C, T) \<Rightarrow>
             chunk_loop m ss (chunk_strings gs, running_string gs g, t)
               = (chunk_strings G, running_string G C, T)
             \<and> (G \<noteq> [] \<longrightarrow> C \<noteq> [])"
  using assms
proof (induction ss arbitrary: gs g t)
  case Nil
  then show ?case by simp
next
  case (Cons s ss)
  show ?case
  proof (cases "t + word_count s > m")
    case True
    have "case group_loop m ss (gs @ [g], [s], word_count s) of
            (G, C, T) \<Rightarrow>
              chunk_loop m ss
                (chunk_strings (gs @ [g]), running_string (gs @ [g]) [s], word_count s)
                = (chunk_strings G, running_string G C, T)
              \<and> (G \<noteq> [] \<longrightarrow> C \<noteq> [])"
      by (rule Cons.IH) simp
    with True show ?thesis
      by (simp add: chunk_strings_snoc running_string_start)
  next
    case False
    have "case group_loop m ss (gs, g @ [s], t + word_count s) of
            (G, C, T) \<Rightarrow>
              chunk_loop m ss (chunk_strings gs, running_string gs (g @ [s]), t + word_count s)
                = (chunk_strings G, running_string G C, T)
              \<and> (G \<noteq> [] \<longrightarrow> C \<noteq> [])"
      by (rule Cons.IH) simp
    moreover have "running_string gs (g @ [s]) = running_string gs g @ '' '' @ s"
      using Cons.prems by (rule running_string_snoc)
    ultimately show ?thesis using False by simp
  qed
qed

lemma group_loop_concat:
  "case group_loop m ss (gs, g, t) of (G, C, T) \<Rightarrow> concat G @ C = concat gs @ g @ ss"
proof (induction ss arbitrary: gs g t)
  case Nil
  show ?case by simp
next
  case (Cons s ss)
  show ?case
    using Cons.IH [of "gs @ [g]" "[s]" "word_count s"]
          Cons.IH [of gs "g @ [s]" "t + word_count s"]
    by (simp add: Let_def)
qed

lemma concat_chunk_sentences: "concat (chunk_sentences tok text m) = tok text"
proof -
  obtain G C T where loop: "group_loop m (tok text) ([], [], 0) = (G, C, T)"
    by (cases "group_loop m (tok text) ([], [], 0)") auto
  with group_loop_concat [where m = m and ss = "tok text" and gs = "[]" and g = "[]" and t = 0] have "concat G @ C = tok text"
    by simp
  with loop show ?thesis
    by (auto simp: chunk_sentences_def)
qed

lemma running_string_nonempty:
  assumes "[] \<notin> set g" and "g \<noteq> []"
  shows "running_string gs g \<noteq> []"
  using assms by (cases g) (auto simp: running_string_def spaced_def)

lemma running_string_Nil: "running_string [] [] = []"
  by (simp add: running_string_def spaced_def)

lemma chunk_text_chunk_strings:
  assumes "[] \<notin> set (tok text)"
  shows "chunk_text tok text m = chunk_strings (chunk_sentences tok text m)"
proof -
  obtain G C T where loop: "group_loop m (tok text) ([], [], 0) = (G, C, T)"
    by (cases "group_loop m (tok text) ([], [], 0)") auto
  have "case group_loop m (tok text) ([], [], 0) of
          (G, C, T) \<Rightarrow>
            chunk_loop m (tok text) (chunk_strings [], running_string [] [], 0)
              = (chunk_strings G, running_string G C, T)
            \<and> (G \<noteq> [] \<longrightarrow> C \<noteq> [])"
    by (rule chunk_loop_group_loop) simp
  with loop have sim: "chunk_loop m (tok text) ([], [], 0) = (chunk_strings G, running_string G C, T)"
    and inv: "G \<noteq> [] \<longrightarrow> C \<noteq> []"
    by (simp_all add: running_string_Nil)
  from group_loop_concat [where m = m and ss = "tok text" and gs = "[]" and g = "[]" and t = 0] loop have "concat G @ C = tok text"
    by simp
  then have "set C \<subseteq> set (tok text)"
    by (metis set_append sup_ge2)
  with assms have nonempty: "[] \<notin> set C"
    by auto
  have "running_string G C \<noteq> [] \<longleftrightarrow> C \<noteq> []"
  proof (cases "C = []")
    case True
    with inv have "G = []" by simp
    with True show ?thesis by (simp add: running_string_Nil)
  next
    case False
    with nonempty show ?thesis by (simp add: running_string_nonempty)
  qed
  with sim loop show ?thesis
    by (simp add: chunk_text_def chunk_sentences_def chunk_strings_snoc)
qed

lemma total_words_snoc: "total_words (g @ [s]) = total_words g + word_count s"
  by (simp add: total_words_def)

lemma group_loop_greedy_from:
  "(case group_loop m ss (gs, g, total_words g) of
      (G, C, T) \<Rightarrow> if C \<noteq> [] then G @ [C] else G) = gs @ greedy_from m g ss"
proof (induction ss arbitrary: gs g)
  case Nil
  show ?case by simp
next
  case (Cons s ss)
  have single: "word_count s = total_words [s]"
    by (simp add: total_words_def)
  show ?case
  proof (cases "total_words g + word_count s > m")
    case True
    then show ?thesis
      using Cons.IH [of "gs @ [g]" "[s]"] by (simp add: single [symmetric])
  next
    case False
    then show ?thesis
      using Cons.IH [of gs "g @ [s]"] by (simp add: total_words_snoc)
  qed
qed

lemma chunk_sentences_greedy: "chunk_sentences tok text m = greedy_chunks m (tok text)"
  using group_loop_greedy_from [where m = m and ss = "tok text" and gs = "[]" and g = "[]"]
  by (simp add: chunk_sentences_def greedy_chunks_def total_words_def)

section \<open>Properties of the chunker\<close>

text \<open>
  C1. The sentence sequences of the chunks that \<open>chunk_text\<close> returns, concatenated,
  are the sentence sequence of the text as \<open>sent_tokenize\<close> gives it: no sentence is
  dropped, duplicated or reordered, no two chunks overlap, and each chunk is the string
  of a run of whole sentences. This holds for every budget, the positive ones among
  them. NLTK's tokenizer returns no empty sentence, which is the hypothesis on
  \<open>sent_tokenize\<close>: the last test of \<open>chunk_text\<close> is on the string of the running
  chunk, and would drop a last chunk made of one empty sentence.
\<close>

theorem chunk_text_partitions_sentences:
  assumes "[] \<notin> set (sent_tokenize text)"
  shows "concat (chunk_sentences sent_tokenize text max_tokens) = sent_tokenize text
         \<and> chunk_text sent_tokenize text max_tokens
             = chunk_strings (chunk_sentences sent_tokenize text max_tokens)"
  using assms by (simp add: concat_chunk_sentences chunk_text_chunk_strings)

theorem chunk_text_partitions_sentences_witness:
  "[] \<notin> set (at_full_stops ''a b c. d. e f. g h i j. k.'')
   \<and> (concat (chunk_sentences at_full_stops ''a b c. d. e f. g h i j. k.'' 3)
         = at_full_stops ''a b c. d. e f. g h i j. k.''
       \<and> chunk_text at_full_stops ''a b c. d. e f. g h i j. k.'' 3
           = chunk_strings (chunk_sentences at_full_stops ''a b c. d. e f. g h i j. k.'' 3))"
proof -
  have h: "[] \<notin> set (at_full_stops ''a b c. d. e f. g h i j. k.'')"
    by code_simp
  show ?thesis
    using h chunk_text_partitions_sentences
            [of at_full_stops "''a b c. d. e f. g h i j. k.''" 3, OF h] by (rule conjI)
qed

text \<open>
  C6. \<open>chunk_text\<close> is the greedy algorithm of the specification: its chunks are the
  strings of the chunks that \<open>greedy_chunks\<close> builds from the sentences of the text.
  The hypothesis is that of C1.
\<close>

theorem chunk_text_refines_greedy:
  assumes "[] \<notin> set (sent_tokenize text)"
  shows "chunk_text sent_tokenize text max_tokens
           = chunk_strings (greedy_chunks max_tokens (sent_tokenize text))"
  using assms by (simp add: chunk_text_chunk_strings chunk_sentences_greedy)

theorem chunk_text_refines_greedy_witness:
  "[] \<notin> set (at_full_stops ''a b c. d. e f. g h i j. k.'')
   \<and> chunk_text at_full_stops ''a b c. d. e f. g h i j. k.'' 3
       = chunk_strings (greedy_chunks 3 (at_full_stops ''a b c. d. e f. g h i j. k.''))"
proof -
  have h: "[] \<notin> set (at_full_stops ''a b c. d. e f. g h i j. k.'')"
    by code_simp
  show ?thesis
    using h chunk_text_refines_greedy
            [of at_full_stops "''a b c. d. e f. g h i j. k.''" 3, OF h] by (rule conjI)
qed

lemma chunk_loop_chunks_prefix:
  "prefix chunks (fst (chunk_loop m ss (chunks, cur, toks)))"
proof (induction ss arbitrary: chunks cur toks)
  case Nil
  show ?case by simp
next
  case (Cons s ss)
  have "prefix (chunks @ [cur]) (fst (chunk_loop m ss (chunks @ [cur], s, word_count s)))"
    by (rule Cons.IH)
  then have "prefix chunks (fst (chunk_loop m ss (chunks @ [cur], s, word_count s)))"
    by (rule append_prefixD)
  moreover have
    "prefix chunks (fst (chunk_loop m ss (chunks, cur @ '' '' @ s, toks + word_count s)))"
    by (rule Cons.IH)
  ultimately show ?case by (simp add: Let_def)
qed

lemma chunk_text_starts_empty:
  assumes "tok text = s # ss" and "word_count s > m"
  shows "\<exists>rest. chunk_text tok text m = [] # rest"
proof -
  obtain chunks cur toks
    where loop: "chunk_loop m ss ([[]], s, word_count s) = (chunks, cur, toks)"
    by (cases "chunk_loop m ss ([[]], s, word_count s)") auto
  have "prefix [[]] (fst (chunk_loop m ss ([[]], s, word_count s)))"
    by (rule chunk_loop_chunks_prefix)
  with loop obtain tl where chunks: "chunks = [] # tl"
    by (auto simp: prefix_def)
  have "chunk_text tok text m = (if cur \<noteq> [] then chunks @ [cur] else chunks)"
    using assms loop by (simp add: chunk_text_def Let_def)
  with chunks show ?thesis by auto
qed

lemma chunk_text_oversized_second:
  assumes "tok text = s # ss" and "word_count s > m" and "s \<noteq> [] \<or> ss \<noteq> []"
  shows "\<exists>rest. chunk_text tok text m = [] # s # rest"
proof (cases ss)
  case Nil
  with assms have "chunk_text tok text m = [[], s]"
    by (simp add: chunk_text_def Let_def)
  then show ?thesis by simp
next
  case (Cons t ts)
  have "0 \<le> word_count t"
    by (rule word_count_nonneg)
  with assms(2) have over: "word_count s + word_count t > m"
    by simp
  obtain chunks cur toks
    where loop: "chunk_loop m ts ([[], s], t, word_count t) = (chunks, cur, toks)"
    by (cases "chunk_loop m ts ([[], s], t, word_count t)") auto
  have "prefix [[], s] (fst (chunk_loop m ts ([[], s], t, word_count t)))"
    by (rule chunk_loop_chunks_prefix)
  with loop obtain tl where chunks: "chunks = [] # s # tl"
    by (auto simp: prefix_def)
  have "chunk_text tok text m = (if cur \<noteq> [] then chunks @ [cur] else chunks)"
    using assms(1,2) Cons over loop by (simp add: chunk_text_def Let_def)
  with chunks show ?thesis by auto
qed

text \<open>
  C9. When the first sentence of the text has more words than \<open>max_tokens\<close>, the first
  chunk that \<open>chunk_text\<close> returns is the empty string: the empty running chunk is
  emitted before the oversized sentence, and the second chunk is that sentence by
  itself. (The sentence is a chunk unless it is the empty string and the only sentence,
  which takes a negative budget.)
\<close>

theorem chunk_text_empty_first_chunk:
  assumes "sent_tokenize text = s # ss" and "word_count s > max_tokens"
  shows "(\<exists>rest. chunk_text sent_tokenize text max_tokens = [] # rest)
         \<and> (s \<noteq> [] \<or> ss \<noteq> []
              \<longrightarrow> (\<exists>rest. chunk_text sent_tokenize text max_tokens = [] # s # rest))"
  using assms chunk_text_starts_empty chunk_text_oversized_second by blast

theorem chunk_text_empty_first_chunk_witness:
  "at_full_stops ''a b c. d.'' = ''a b c.'' # ['' d.'']
   \<and> word_count ''a b c.'' > 2
   \<and> ''a b c.'' \<noteq> []
   \<and> (\<exists>rest. chunk_text at_full_stops ''a b c. d.'' 2 = [] # ''a b c.'' # rest)
   \<and> chunk_text at_full_stops ''a b c. d.'' 2 = [[], ''a b c.'', '' d.'']"
proof -
  have h1: "at_full_stops ''a b c. d.'' = ''a b c.'' # ['' d.'']"
    by code_simp
  have h2: "word_count ''a b c.'' > 2"
    by code_simp
  have h3: "''a b c.'' \<noteq> []"
    by simp
  have v: "chunk_text at_full_stops ''a b c. d.'' 2 = [[], ''a b c.'', '' d.'']"
    by code_simp
  from h3 chunk_text_empty_first_chunk
            [of at_full_stops "''a b c. d.''" "''a b c.''" "['' d.'']" 2, OF h1 h2]
  have "\<exists>rest. chunk_text at_full_stops ''a b c. d.'' 2 = [] # ''a b c.'' # rest"
    by blast
  with h1 h2 h3 v show ?thesis
    by blast
qed

lemma chunk_loop_within_budget:
  assumes "t = word_count cur"
    and "\<forall>c \<in> set chunks. word_count c \<le> m \<or> (c \<in> S \<and> m < word_count c)"
    and "word_count cur \<le> m \<or> (cur \<in> S \<and> m < word_count cur)"
    and "set ss \<subseteq> S"
  shows "case chunk_loop m ss (chunks, cur, t) of
           (chunks', cur', t') \<Rightarrow>
             (\<forall>c \<in> set chunks'. word_count c \<le> m \<or> (c \<in> S \<and> m < word_count c))
             \<and> (word_count cur' \<le> m \<or> (cur' \<in> S \<and> m < word_count cur'))"
  using assms
proof (induction ss arbitrary: chunks cur t)
  case Nil
  then show ?case by simp
next
  case (Cons s ss)
  show ?case
  proof (cases "t + word_count s > m")
    case True
    have "case chunk_loop m ss (chunks @ [cur], s, word_count s) of
            (chunks', cur', t') \<Rightarrow>
              (\<forall>c \<in> set chunks'. word_count c \<le> m \<or> (c \<in> S \<and> m < word_count c))
              \<and> (word_count cur' \<le> m \<or> (cur' \<in> S \<and> m < word_count cur'))"
    proof (rule Cons.IH)
      show "word_count s = word_count s" by simp
      show "\<forall>c \<in> set (chunks @ [cur]). word_count c \<le> m \<or> (c \<in> S \<and> m < word_count c)"
        using Cons.prems(2,3) by auto
      show "word_count s \<le> m \<or> (s \<in> S \<and> m < word_count s)"
        using Cons.prems(4) by auto
      show "set ss \<subseteq> S"
        using Cons.prems(4) by simp
    qed
    with True show ?thesis by simp
  next
    case False
    have "case chunk_loop m ss (chunks, cur @ '' '' @ s, t + word_count s) of
            (chunks', cur', t') \<Rightarrow>
              (\<forall>c \<in> set chunks'. word_count c \<le> m \<or> (c \<in> S \<and> m < word_count c))
              \<and> (word_count cur' \<le> m \<or> (cur' \<in> S \<and> m < word_count cur'))"
    proof (rule Cons.IH)
      show "t + word_count s = word_count (cur @ '' '' @ s)"
        using Cons.prems(1) by (simp only: word_count_append_blank)
      show "\<forall>c \<in> set chunks. word_count c \<le> m \<or> (c \<in> S \<and> m < word_count c)"
        by (rule Cons.prems(2))
      show "word_count (cur @ '' '' @ s) \<le> m
            \<or> (cur @ '' '' @ s \<in> S \<and> m < word_count (cur @ '' '' @ s))"
        using False Cons.prems(1) by (simp only: word_count_append_blank) simp
      show "set ss \<subseteq> S"
        using Cons.prems(4) by simp
    qed
    with False show ?thesis by simp
  qed
qed

lemma chunk_loop_oversized:
  assumes "t = word_count cur"
    and "m < word_count x"
    and "x \<in> set chunks \<or> x = cur \<or> x \<in> set ss"
  shows "case chunk_loop m ss (chunks, cur, t) of
           (chunks', cur', t') \<Rightarrow> x \<in> set chunks' \<or> x = cur'"
  using assms
proof (induction ss arbitrary: chunks cur t)
  case Nil
  then show ?case by simp
next
  case (Cons s ss)
  show ?case
  proof (cases "t + word_count s > m")
    case True
    have "case chunk_loop m ss (chunks @ [cur], s, word_count s) of
            (chunks', cur', t') \<Rightarrow> x \<in> set chunks' \<or> x = cur'"
      using Cons.prems by (intro Cons.IH) auto
    with True show ?thesis by simp
  next
    case False
    have "0 \<le> word_count s" and "0 \<le> word_count cur"
      by (rule word_count_nonneg)+
    with False Cons.prems(1,2) have "x \<noteq> cur" and "x \<noteq> s"
      by auto
    with Cons.prems(3) have "x \<in> set chunks \<or> x \<in> set ss"
      by auto
    then have "case chunk_loop m ss (chunks, cur @ '' '' @ s, t + word_count s) of
            (chunks', cur', t') \<Rightarrow> x \<in> set chunks' \<or> x = cur'"
      using Cons.prems(1,2) by (intro Cons.IH) (auto simp only: word_count_append_blank)
    with False show ?thesis by simp
  qed
qed

text \<open>
  C2, as the code has it: for a budget that is not negative. Every chunk that
  \<open>chunk_text\<close> returns has at most \<open>max_tokens\<close> words, or is one sentence of the
  text, whole, that has more words than \<open>max_tokens\<close>; and every sentence with more
  words than \<open>max_tokens\<close> is a chunk by itself.
\<close>

theorem chunk_text_within_budget:
  assumes "0 \<le> max_tokens"
  shows "(\<forall>c \<in> set (chunk_text sent_tokenize text max_tokens).
            word_count c \<le> max_tokens
            \<or> (c \<in> set (sent_tokenize text) \<and> max_tokens < word_count c))
         \<and> (\<forall>s \<in> set (sent_tokenize text).
               max_tokens < word_count s \<longrightarrow> s \<in> set (chunk_text sent_tokenize text max_tokens))"
proof -
  let ?S = "set (sent_tokenize text)"
  obtain chunks cur t
    where loop: "chunk_loop max_tokens (sent_tokenize text) ([], [], 0) = (chunks, cur, t)"
    by (cases "chunk_loop max_tokens (sent_tokenize text) ([], [], 0)") auto
  have result: "set (chunk_text sent_tokenize text max_tokens)
                  = (if cur \<noteq> [] then set chunks \<union> {cur} else set chunks)"
    using loop by (simp add: chunk_text_def)
  have "case chunk_loop max_tokens (sent_tokenize text) ([], [], 0) of
          (chunks', cur', t') \<Rightarrow>
            (\<forall>c \<in> set chunks'. word_count c \<le> max_tokens \<or> (c \<in> ?S \<and> max_tokens < word_count c))
            \<and> (word_count cur' \<le> max_tokens \<or> (cur' \<in> ?S \<and> max_tokens < word_count cur'))"
    using assms by (intro chunk_loop_within_budget) (simp_all add: word_count_Nil)
  with loop result have bounded:
    "\<forall>c \<in> set (chunk_text sent_tokenize text max_tokens).
       word_count c \<le> max_tokens \<or> (c \<in> ?S \<and> max_tokens < word_count c)"
    by (auto split: if_splits)
  have alone: "s \<in> set (chunk_text sent_tokenize text max_tokens)"
    if "s \<in> ?S" and "max_tokens < word_count s" for s
  proof -
    have "case chunk_loop max_tokens (sent_tokenize text) ([], [], 0) of
            (chunks', cur', t') \<Rightarrow> s \<in> set chunks' \<or> s = cur'"
      using that by (intro chunk_loop_oversized) (simp_all add: word_count_Nil)
    with loop have "s \<in> set chunks \<or> s = cur"
      by simp
    moreover have "s \<noteq> []"
      using that(2) assms by (auto simp: word_count_Nil)
    ultimately show ?thesis
      using result by auto
  qed
  from bounded alone show ?thesis by blast
qed

theorem chunk_text_within_budget_witness:
  "(0::int) \<le> 3
   \<and> '' g h i j.'' \<in> set (at_full_stops ''a b c. d. e f. g h i j. k.'')
   \<and> 3 < word_count '' g h i j.''
   \<and> '' g h i j.'' \<in> set (chunk_text at_full_stops ''a b c. d. e f. g h i j. k.'' 3)
   \<and> '' d.  e f.'' \<in> set (chunk_text at_full_stops ''a b c. d. e f. g h i j. k.'' 3)
   \<and> (word_count '' d.  e f.'' \<le> 3
        \<or> ('' d.  e f.'' \<in> set (at_full_stops ''a b c. d. e f. g h i j. k.'')
            \<and> 3 < word_count '' d.  e f.''))"
proof -
  have h: "(0::int) \<le> 3"
    by simp
  have s: "'' g h i j.'' \<in> set (at_full_stops ''a b c. d. e f. g h i j. k.'')"
    by code_simp
  have w: "3 < word_count '' g h i j.''"
    by code_simp
  have c: "'' d.  e f.'' \<in> set (chunk_text at_full_stops ''a b c. d. e f. g h i j. k.'' 3)"
    by code_simp
  show ?thesis
    using h s w c
      chunk_text_within_budget [of 3 at_full_stops "''a b c. d. e f. g h i j. k.''", OF h]
    by blast
qed

text \<open>
  With a negative budget the claim of C2 fails: on the text \<open>a\<close> and the budget \<open>-1\<close>
  the first chunk is the empty string, which has no word, more than the budget, and
  is no sentence of the text.
\<close>

theorem chunk_text_negative_budget:
  "[] \<in> set (chunk_text whole_text ''a'' (- 1))
   \<and> \<not> word_count [] \<le> - 1
   \<and> [] \<notin> set (whole_text ''a'')"
  by code_simp

section \<open>Properties of the short summary\<close>

lemma summary_string_snoc: "summary_string (inc @ [s]) = summary_string inc @ s @ '' ''"
  by (simp add: summary_string_def)

lemma summary_loop_included_loop:
  "summary_loop m ss (summary_string inc, t)
     = (case included_loop m ss (inc, t) of (I, T) \<Rightarrow> (summary_string I, T))"
proof (induction ss arbitrary: inc t)
  case Nil
  show ?case by simp
next
  case (Cons s ss)
  show ?case
    using Cons.IH [of "inc @ [s]" "t + word_count s"]
    by (simp add: summary_string_snoc Let_def)
qed

lemma generate_short_summary_sentences:
  "generate_short_summary tok kws text m = strip (summary_string (summary_sentences tok kws text m))"
proof -
  have "summary_string [] = []"
    by (simp add: summary_string_def)
  then have "summary_loop m (ev_sentences kws (tok text)) ([], 0)
               = (case included_loop m (ev_sentences kws (tok text)) ([], 0) of
                    (I, T) \<Rightarrow> (summary_string I, T))"
    using summary_loop_included_loop [of m "ev_sentences kws (tok text)" "[]" 0] by simp
  then show ?thesis
    by (simp add: generate_short_summary_def summary_sentences_def split: prod.splits)
qed

lemma included_loop_prefix:
  "prefix (fst (included_loop m ss (inc, t))) (inc @ ss)"
proof (induction ss arbitrary: inc t)
  case Nil
  show ?case by simp
next
  case (Cons s ss)
  show ?case
    using Cons.IH [of "inc @ [s]" "t + word_count s"] by (simp add: Let_def)
qed

lemma included_loop_total:
  "t = total_words inc \<Longrightarrow>
     snd (included_loop m ss (inc, t)) = total_words (fst (included_loop m ss (inc, t)))"
proof (induction ss arbitrary: inc t)
  case Nil
  then show ?case by simp
next
  case (Cons s ss)
  then show ?case
    using Cons.IH [of "t + word_count s" "inc @ [s]"] by (simp add: total_words_snoc Let_def)
qed

lemma included_loop_bound:
  "t \<le> m \<Longrightarrow> snd (included_loop m ss (inc, t)) \<le> m"
  by (induction ss arbitrary: inc t) (simp_all add: Let_def)


lemma split_summary_string: "split (summary_string ss) = concat (map split ss)"
proof (induction ss)
  case Nil
  show ?case by (simp add: summary_string_def split_def)
next
  case (Cons s ss)
  have "summary_string (s # ss) = s @ '' '' @ summary_string ss"
    by (simp add: summary_string_def)
  then show ?case
    using Cons.IH by (simp only: split_append_blank) simp
qed

lemma word_count_summary_string: "word_count (summary_string ss) = total_words ss"
proof (induction ss)
  case Nil
  show ?case by (simp add: summary_string_def total_words_def word_count_Nil)
next
  case (Cons s ss)
  have "summary_string (s # ss) = s @ '' '' @ summary_string ss"
    by (simp add: summary_string_def)
  then have "word_count (summary_string (s # ss)) = word_count s + word_count (summary_string ss)"
    by (simp only: word_count_append_blank)
  with Cons.IH show ?case by (simp add: total_words_def)
qed

lemma code_point_char_of: "n < 256 \<Longrightarrow> code_point (char_of n) = n"
  by (simp add: code_point_def)

lemma lower_char_idem: "lower_char (lower_char c) = lower_char c"
proof (cases "isupper c")
  case True
  then have range: "(65 \<le> code_point c \<and> code_point c \<le> 90)
                    \<or> (192 \<le> code_point c \<and> code_point c \<le> 222 \<and> code_point c \<noteq> 215)"
    by (simp add: isupper_def Let_def)
  then have "code_point c + 32 < 256"
    by auto
  then have "code_point (char_of (code_point c + 32)) = code_point c + 32"
    by (rule code_point_char_of)
  with range have "\<not> isupper (char_of (code_point c + 32))"
    by (auto simp: isupper_def Let_def)
  with True show ?thesis by (simp add: lower_char_def)
next
  case False
  then show ?thesis by (simp add: lower_char_def)
qed

lemma lower_sublist_lower:
  assumes "sublist kw (lower s)"
  shows "lower kw = kw"
proof -
  have "set kw \<subseteq> lower_char ` set s"
    using set_mono_sublist [OF assms] by (simp add: lower_def)
  then have "\<forall>c \<in> set kw. lower_char c = c"
    by (auto simp: lower_char_idem)
  then show ?thesis
    by (simp add: lower_def map_idI)
qed

lemma summary_sentences_prefix:
  "prefix (summary_sentences tok kws text m) (ev_sentences kws (tok text))"
  using included_loop_prefix [of m "ev_sentences kws (tok text)" "[]" 0]
  by (simp add: summary_sentences_def)

lemma ev_sentences_keyword:
  assumes "sent \<in> set (ev_sentences kws ss)"
  shows "\<exists>kw \<in> set kws. sublist kw (lower sent)"
  using assms unfolding ev_sentences_def by simp

text \<open>
  C4. The short summary is the string of the sentences in \<open>summary_sentences\<close>. Each
  of them contains a keyword of the list as a substring when case is ignored (the
  keyword itself is a substring of the sentence in lower case), and they are a
  subsequence of the sentences of the text, so they keep the order of the text and
  no sentence without a keyword is among them.
\<close>

theorem short_summary_only_matching:
  "generate_short_summary sent_tokenize keywords text max_length
     = strip (summary_string (summary_sentences sent_tokenize keywords text max_length))
   \<and> (\<forall>sent \<in> set (summary_sentences sent_tokenize keywords text max_length).
         \<exists>kw \<in> set keywords. sublist kw (lower sent) \<and> sublist (lower kw) (lower sent))
   \<and> subseq (summary_sentences sent_tokenize keywords text max_length) (sent_tokenize text)"
proof (intro conjI ballI)
  let ?ev = "ev_sentences keywords (sent_tokenize text)"
  let ?sel = "summary_sentences sent_tokenize keywords text max_length"
  have pre: "prefix ?sel ?ev"
    by (rule summary_sentences_prefix)
  show "generate_short_summary sent_tokenize keywords text max_length = strip (summary_string ?sel)"
    by (rule generate_short_summary_sentences)
  show "\<exists>kw \<in> set keywords. sublist kw (lower sent) \<and> sublist (lower kw) (lower sent)"
    if "sent \<in> set ?sel" for sent
  proof -
    from pre have "set ?sel \<subseteq> set ?ev"
      by (rule set_mono_prefix)
    with that have "sent \<in> set ?ev"
      by (rule subsetD [rotated])
    then obtain kw where kw: "kw \<in> set keywords" "sublist kw (lower sent)"
      using ev_sentences_keyword by blast
    from kw(2) have "lower kw = kw"
      by (rule lower_sublist_lower)
    with kw show ?thesis
      by (intro bexI [of _ kw]) simp_all
  qed
  show "subseq ?sel (sent_tokenize text)"
  proof -
    have "subseq ?sel ?ev"
      using pre by (rule prefix_imp_subseq)
    moreover have "subseq ?ev (sent_tokenize text)"
      unfolding ev_sentences_def by (rule subseq_filter_left)
    ultimately show ?thesis
      by (rule subseq_order.trans)
  qed
qed

theorem short_summary_only_matching_witness:
  "'' Grid strain rises.''
     \<in> set (summary_sentences at_full_stops [''battery waste'', ''grid strain'']
              ''Battery Waste is toxic. It rains. Grid strain rises.'' 300)
   \<and> (\<exists>kw \<in> set [''battery waste'', ''grid strain''].
         sublist kw (lower '' Grid strain rises.'')
         \<and> sublist (lower kw) (lower '' Grid strain rises.''))
   \<and> subseq (summary_sentences at_full_stops [''battery waste'', ''grid strain'']
                ''Battery Waste is toxic. It rains. Grid strain rises.'' 300)
        (at_full_stops ''Battery Waste is toxic. It rains. Grid strain rises.'')"
proof -
  have m: "'' Grid strain rises.''
     \<in> set (summary_sentences at_full_stops [''battery waste'', ''grid strain'']
              ''Battery Waste is toxic. It rains. Grid strain rises.'' 300)"
    by code_simp
  show ?thesis
    using m short_summary_only_matching
      [of at_full_stops "[''battery waste'', ''grid strain'']"
          "''Battery Waste is toxic. It rains. Grid strain rises.''" 300]
    by blast
qed

lemma summary_sentences_total:
  "0 \<le> m \<Longrightarrow> total_words (summary_sentences tok kws text m) \<le> m"
proof -
  assume "0 \<le> m"
  then have "snd (included_loop m (ev_sentences kws (tok text)) ([], 0)) \<le> m"
    by (rule included_loop_bound)
  moreover have "snd (included_loop m (ev_sentences kws (tok text)) ([], 0))
                   = total_words (fst (included_loop m (ev_sentences kws (tok text)) ([], 0)))"
    by (rule included_loop_total) (simp add: total_words_def)
  ultimately show ?thesis
    by (simp add: summary_sentences_def)
qed

text \<open>
  C5, as the code has it: for a budget that is not negative. The short summary has at
  most \<open>max_length\<close> words, and its words are those of the sentences in
  \<open>summary_sentences\<close>, each sentence whole: the summary is the string of these
  sentences with the whitespace at its two ends removed.
\<close>

theorem short_summary_within_budget:
  assumes "0 \<le> max_length"
  shows "generate_short_summary sent_tokenize keywords text max_length
           = strip (summary_string (summary_sentences sent_tokenize keywords text max_length))
         \<and> split (generate_short_summary sent_tokenize keywords text max_length)
             = concat (map split (summary_sentences sent_tokenize keywords text max_length))
         \<and> word_count (generate_short_summary sent_tokenize keywords text max_length)
             \<le> max_length"
proof (intro conjI)
  let ?sel = "summary_sentences sent_tokenize keywords text max_length"
  show eq: "generate_short_summary sent_tokenize keywords text max_length
              = strip (summary_string ?sel)"
    by (rule generate_short_summary_sentences)
  show "split (generate_short_summary sent_tokenize keywords text max_length)
          = concat (map split ?sel)"
    by (simp only: eq split_strip split_summary_string)
  have "word_count (generate_short_summary sent_tokenize keywords text max_length)
          = total_words ?sel"
    by (simp only: eq word_count_strip word_count_summary_string)
  with assms show "word_count (generate_short_summary sent_tokenize keywords text max_length)
                     \<le> max_length"
    by (simp add: summary_sentences_total)
qed

theorem short_summary_within_budget_witness:
  "(0::int) \<le> 4
   \<and> generate_short_summary at_full_stops [''battery waste'', ''grid strain'']
        ''Battery Waste is toxic. It rains. Grid strain rises.'' 4
       = ''Battery Waste is toxic.''
   \<and> word_count (generate_short_summary at_full_stops [''battery waste'', ''grid strain'']
                    ''Battery Waste is toxic. It rains. Grid strain rises.'' 4) \<le> 4"
proof -
  have h: "(0::int) \<le> 4"
    by simp
  have v: "generate_short_summary at_full_stops [''battery waste'', ''grid strain'']
             ''Battery Waste is toxic. It rains. Grid strain rises.'' 4
           = ''Battery Waste is toxic.''"
    by code_simp
  show ?thesis
    using h v short_summary_within_budget
      [of 4 at_full_stops "[''battery waste'', ''grid strain'']"
          "''Battery Waste is toxic. It rains. Grid strain rises.''", OF h]
    by blast
qed

text \<open>
  With a negative budget the claim of C5 fails: on the budget \<open>-1\<close> no sentence is
  included and the summary is the empty string, whose word count, 0, is more than the
  budget.
\<close>

theorem short_summary_negative_budget:
  "generate_short_summary whole_text [''a''] ''a'' (- 1) = []
   \<and> \<not> word_count (generate_short_summary whole_text [''a''] ''a'' (- 1)) \<le> - 1"
  by code_simp



section \<open>Properties of the summarization client\<close>

lemma summarize_with_groq_cases:
  "(\<exists>e. client (prompt text context_name) = Raise (BaseException e)
        \<and> summarize_with_groq client text context_name = Inl (BaseException e))
   \<or> (\<exists>out. summarize_with_groq client text context_name = Inr out)"
  unfolding summarize_with_groq_def
  by (auto split: call_result.splits raised.splits list.splits option.splits)

lemma summarize_with_groq_returns:
  assumes "\<forall>p e. client p \<noteq> Raise (BaseException e)"
  shows "\<exists>out. summarize_with_groq client text context_name = Inr out"
  using assms summarize_with_groq_cases [of client "text" context_name] by auto

lemma summarize_loop_sections:
  assumes "\<forall>p e. client p \<noteq> Raise (BaseException e)"
  shows "\<exists>summaries ev_summaries.
           map (\<lambda>chunk. summarize_with_groq client chunk ''Full PDF Summary'') chunks
             = map Inr summaries
           \<and> map (\<lambda>chunk. summarize_with_groq client (joined (ev_sentences kws (tok chunk)))
                            ''EV Disadvantages Only'') chunks
               = map Inr ev_summaries
           \<and> summarize_loop client tok kws i chunks (full, ev)
               = Inr (full @ concat (map (\<lambda>(j, summary). full_section j summary)
                                      (enumerate i summaries)),
                      ev @ concat (map (\<lambda>(j, chunk, ev_summary).
                                          if ev_sentences kws (tok chunk) \<noteq> []
                                          then ev_section j ev_summary else [])
                                     (enumerate i (zip chunks ev_summaries))))"
proof (induction chunks arbitrary: i full ev)
  case Nil
  show ?case by simp
next
  case (Cons chunk rest)
  obtain summary where s1: "summarize_with_groq client chunk ''Full PDF Summary'' = Inr summary"
    using summarize_with_groq_returns [OF assms] by blast
  obtain ev_summary where s2:
    "summarize_with_groq client (joined (ev_sentences kws (tok chunk))) ''EV Disadvantages Only''
       = Inr ev_summary"
    using summarize_with_groq_returns [OF assms] by blast
  let ?ev' = "if ev_sentences kws (tok chunk) \<noteq> [] then ev @ ev_section i ev_summary else ev"
  obtain summaries ev_summaries where
    m1: "map (\<lambda>chunk. summarize_with_groq client chunk ''Full PDF Summary'') rest
           = map Inr summaries"
    and m2: "map (\<lambda>chunk. summarize_with_groq client (joined (ev_sentences kws (tok chunk)))
                            ''EV Disadvantages Only'') rest
               = map Inr ev_summaries"
    and loop: "summarize_loop client tok kws (i + 1) rest (full @ full_section i summary, ?ev')
               = Inr ((full @ full_section i summary)
                        @ concat (map (\<lambda>(j, summary). full_section j summary)
                                      (enumerate (i + 1) summaries)),
                      ?ev' @ concat (map (\<lambda>(j, chunk, ev_summary).
                                          if ev_sentences kws (tok chunk) \<noteq> []
                                          then ev_section j ev_summary else [])
                                     (enumerate (i + 1) (zip rest ev_summaries))))"
    using Cons.IH [of "i + 1" "full @ full_section i summary" ?ev'] by blast
  have "map (\<lambda>chunk. summarize_with_groq client chunk ''Full PDF Summary'') (chunk # rest)
          = map Inr (summary # summaries)"
    using s1 m1 by simp
  moreover have
    "map (\<lambda>chunk. summarize_with_groq client (joined (ev_sentences kws (tok chunk)))
                    ''EV Disadvantages Only'') (chunk # rest)
       = map Inr (ev_summary # ev_summaries)"
    using s2 m2 by simp
  moreover have
    "summarize_loop client tok kws i (chunk # rest) (full, ev)
       = Inr (full @ concat (map (\<lambda>(j, summary). full_section j summary)
                              (enumerate i (summary # summaries))),
              ev @ concat (map (\<lambda>(j, chunk, ev_summary).
                                  if ev_sentences kws (tok chunk) \<noteq> []
                                  then ev_section j ev_summary else [])
                             (enumerate i (zip (chunk # rest) (ev_summary # ev_summaries)))))"
    using s1 s2 loop
    by (cases "ev_sentences kws (tok chunk) = []") (simp_all add: Let_def)
  ultimately show ?case by blast
qed

text \<open>
  C7. When the call to the API raises an exception (an instance of \<open>Exception\<close>),
  \<open>summarize_with_groq\<close> returns the fixed string and raises nothing; when the call
  returns a completion whose first choice has a content, it returns that content
  stripped. So with a client whose failures are all of this kind the loop over the
  chunks of a file reaches every chunk: each call returns a string, and the two
  summaries of the file are the sections of all the chunks in order, the section of a
  chunk holding what \<open>summarize_with_groq\<close> returned for it.
\<close>

theorem summarize_with_groq_handles_failure:
  "(client (prompt text context_name) = Raise (Exception e)
      \<longrightarrow> summarize_with_groq client text context_name
            = Inr ''Failed to summarize due to API error.'')
   \<and> (client (prompt text context_name) = Return completion
        \<and> choices completion = first # others \<and> content (message first) = Some out
      \<longrightarrow> summarize_with_groq client text context_name = Inr (strip out))
   \<and> ((\<forall>p e'. client p \<noteq> Raise (BaseException e'))
      \<longrightarrow> (\<exists>summaries ev_summaries.
             map (\<lambda>chunk. summarize_with_groq client chunk ''Full PDF Summary'') chunks
               = map Inr summaries
             \<and> map (\<lambda>chunk. summarize_with_groq client
                                (joined (ev_sentences keywords (sent_tokenize chunk)))
                                ''EV Disadvantages Only'') chunks
                 = map Inr ev_summaries
             \<and> summarize_chunks client sent_tokenize keywords chunks
                 = Inr (concat (map (\<lambda>(i, summary). full_section i summary)
                                  (enumerate 0 summaries)),
                        concat (map (\<lambda>(i, chunk, ev_summary).
                                       if ev_sentences keywords (sent_tokenize chunk) \<noteq> []
                                       then ev_section i ev_summary else [])
                                  (enumerate 0 (zip chunks ev_summaries))))))"
proof (intro conjI impI)
  assume "client (prompt text context_name) = Raise (Exception e)"
  then show "summarize_with_groq client text context_name
               = Inr ''Failed to summarize due to API error.''"
    by (simp add: summarize_with_groq_def api_failure_def)
next
  assume "client (prompt text context_name) = Return completion
          \<and> choices completion = first # others \<and> content (message first) = Some out"
  then show "summarize_with_groq client text context_name = Inr (strip out)"
    by (simp add: summarize_with_groq_def)
next
  assume "\<forall>p e'. client p \<noteq> Raise (BaseException e')"
  then show "\<exists>summaries ev_summaries.
             map (\<lambda>chunk. summarize_with_groq client chunk ''Full PDF Summary'') chunks
               = map Inr summaries
             \<and> map (\<lambda>chunk. summarize_with_groq client
                                (joined (ev_sentences keywords (sent_tokenize chunk)))
                                ''EV Disadvantages Only'') chunks
                 = map Inr ev_summaries
             \<and> summarize_chunks client sent_tokenize keywords chunks
                 = Inr (concat (map (\<lambda>(i, summary). full_section i summary)
                                  (enumerate 0 summaries)),
                        concat (map (\<lambda>(i, chunk, ev_summary).
                                       if ev_sentences keywords (sent_tokenize chunk) \<noteq> []
                                       then ev_section i ev_summary else [])
                                  (enumerate 0 (zip chunks ev_summaries))))"
    using summarize_loop_sections
            [where client = client and chunks = chunks and kws = "keywords"
               and tok = sent_tokenize and i = 0 and full = "[]" and ev = "[]"]
    by (simp add: summarize_chunks_def)
qed

theorem summarize_with_groq_handles_failure_witness:
  "failing_on ''rains'' (prompt ''It rains.'' ''Full PDF Summary'')
     = Raise (Exception ''Connection error.'')
   \<and> summarize_with_groq (failing_on ''rains'') ''It rains.'' ''Full PDF Summary''
       = Inr ''Failed to summarize due to API error.''
   \<and> summarize_with_groq (failing_on ''rains'') ''Grid strain rises.'' ''Full PDF Summary''
       = Inr ''The paper studies grid strain.''
   \<and> summarize_chunks (failing_on ''rains'') at_full_stops [''grid strain'']
         [''It rains.'', ''Grid strain rises.'']
       = Inr (full_section 0 ''Failed to summarize due to API error.''
                @ full_section 1 ''The paper studies grid strain.'',
              ev_section 1 ''The paper studies grid strain.'')"
proof -
  let ?client = "failing_on ''rains''"
  let ?answer = "'' The paper studies grid strain. ''"
  let ?c = "\<lparr>choices = [\<lparr>message = \<lparr>content = Some ?answer\<rparr>\<rparr>]\<rparr>"
  let ?f = "\<lparr>message = \<lparr>content = Some ?answer\<rparr>\<rparr>"
  let ?chunks = "[''It rains.'', ''Grid strain rises.'']"
  have fails: "?client (prompt ''It rains.'' ''Full PDF Summary'')
                 = Raise (Exception ''Connection error.'')"
    by code_simp
  have answers: "?client (prompt ''Grid strain rises.'' ''Full PDF Summary'') = Return ?c
                 \<and> choices ?c = ?f # [] \<and> content (message ?f) = Some ?answer"
    by code_simp
  have never: "\<forall>p e'. ?client p \<noteq> Raise (BaseException e')"
    by (simp add: failing_on_def failing_client_def answering_client_def)
  have stripped: "strip ?answer = ''The paper studies grid strain.''"
    by code_simp
  note first_chunk = summarize_with_groq_handles_failure
      [of ?client "''It rains.''" "''Full PDF Summary''" "''Connection error.''"
          ?c ?f "[]" "[]" ?chunks "[''grid strain'']" at_full_stops]
  note second_chunk = summarize_with_groq_handles_failure
      [of ?client "''Grid strain rises.''" "''Full PDF Summary''" "[]"
          ?c ?f "[]" ?answer "[]" "[]" at_full_stops]
  from fails first_chunk
  have part1: "summarize_with_groq ?client ''It rains.'' ''Full PDF Summary''
                 = Inr ''Failed to summarize due to API error.''"
    by blast
  from answers second_chunk
  have "summarize_with_groq ?client ''Grid strain rises.'' ''Full PDF Summary''
          = Inr (strip ?answer)"
    by blast
  with stripped
  have part2: "summarize_with_groq ?client ''Grid strain rises.'' ''Full PDF Summary''
                 = Inr ''The paper studies grid strain.''"
    by simp
  from never first_chunk obtain summaries ev_summaries where
    m1: "map (\<lambda>chunk. summarize_with_groq ?client chunk ''Full PDF Summary'') ?chunks
           = map Inr summaries"
    and m2: "map (\<lambda>chunk. summarize_with_groq ?client
                            (joined (ev_sentences [''grid strain''] (at_full_stops chunk)))
                            ''EV Disadvantages Only'') ?chunks
               = map Inr ev_summaries"
    and loop: "summarize_chunks ?client at_full_stops [''grid strain''] ?chunks
                 = Inr (concat (map (\<lambda>(i, summary). full_section i summary)
                                  (enumerate 0 summaries)),
                        concat (map (\<lambda>(i, chunk, ev_summary).
                                       if ev_sentences [''grid strain''] (at_full_stops chunk) \<noteq> []
                                       then ev_section i ev_summary else [])
                                  (enumerate 0 (zip ?chunks ev_summaries))))"
    by blast
  from m1 part1 part2 have summaries:
    "summaries = [''Failed to summarize due to API error.'', ''The paper studies grid strain.'']"
    by (auto simp: map_eq_Cons_conv)
  have "map (\<lambda>chunk. summarize_with_groq ?client
                        (joined (ev_sentences [''grid strain''] (at_full_stops chunk)))
                        ''EV Disadvantages Only'') ?chunks
          = [Inr ''The paper studies grid strain.'', Inr ''The paper studies grid strain.'']"
    by code_simp
  with m2 have ev_summaries:
    "ev_summaries = [''The paper studies grid strain.'', ''The paper studies grid strain.'']"
    by (auto simp: map_eq_Cons_conv)
  have e1: "ev_sentences [''grid strain''] (at_full_stops ''It rains.'') = []"
    by code_simp
  have e2: "ev_sentences [''grid strain''] (at_full_stops ''Grid strain rises.'') \<noteq> []"
    by code_simp
  from loop summaries ev_summaries e1 e2
  have part3: "summarize_chunks ?client at_full_stops [''grid strain''] ?chunks
       = Inr (full_section 0 ''Failed to summarize due to API error.''
                @ full_section 1 ''The paper studies grid strain.'',
              ev_section 1 ''The paper studies grid strain.'')"
    by (simp add: enumerate_simps)
  from fails part1 part2 part3 show ?thesis
    by blast
qed

section \<open>Properties of the extraction\<close>

text \<open>
  C3 fails on the code. The pattern for numbers has a group, so \<open>findall\<close> returns the
  text of the group and not the number: on the sentence \<open>Range is 300 km.\<close> the
  pattern matches \<open>300\<close> at position 9, and the data point pairs the empty string with
  the sentence; on \<open>Costs 3.14 dollars.\<close> it pairs \<open>.14\<close> with the sentence.
\<close>

theorem data_point_loses_number:
  "finditer number_regex ''Range is 300 km.'' = [(9, 3, [])]
   \<and> fst (snd (extract_links_and_data whole_text ''Range is 300 km.''))
       = ['' -> Range is 300 km.'']
   \<and> finditer number_regex ''Costs 3.14 dollars.'' = [(6, 4, ''.14'')]
   \<and> fst (snd (extract_links_and_data whole_text ''Costs 3.14 dollars.''))
       = [''.14 -> Costs 3.14 dollars.'']"
  by code_simp

lemma finditer_from_unfold_None:
  "pos < length text \<Longrightarrow> m text pos = None \<Longrightarrow>
     finditer_from m text pos = finditer_from m text (pos + 1)"
  by (subst finditer_from.simps) simp

lemma finditer_from_unfold_Some:
  "pos < length text \<Longrightarrow> m text pos = Some (n, g) \<Longrightarrow>
     finditer_from m text pos = (pos, n, g) # finditer_from m text (pos + max 1 n)"
  by (subst finditer_from.simps) simp

lemma finditer_from_unfold_end:
  "\<not> pos < length text \<Longrightarrow> finditer_from m text pos = []"
  by (subst finditer_from.simps) simp

lemma finditer_from_sound:
  "(i, n, g) \<in> set (finditer_from m t pos) \<Longrightarrow>
     pos \<le> i \<and> i < length t \<and> m t i = Some (n, g)"
proof (induction m t pos rule: finditer_from.induct)
  case (1 m t pos)
  show ?case
  proof (cases "pos < length t")
    case False
    with "1.prems" show ?thesis
      by (simp add: finditer_from_unfold_end)
  next
    case True
    show ?thesis
    proof (cases "m t pos")
      case None
      with True "1.prems" have "(i, n, g) \<in> set (finditer_from m t (pos + 1))"
        by (simp add: finditer_from_unfold_None)
      with True None have "pos + 1 \<le> i \<and> i < length t \<and> m t i = Some (n, g)"
        by (rule "1.IH"(1))
      then show ?thesis by simp
    next
      case (Some a)
      obtain n' g' where a: "a = (n', g')"
        by (cases a)
      with True Some "1.prems" have
        "(i, n, g) = (pos, n', g') \<or> (i, n, g) \<in> set (finditer_from m t (pos + max 1 n'))"
        by (simp add: finditer_from_unfold_Some)
      then show ?thesis
      proof
        assume "(i, n, g) = (pos, n', g')"
        with True Some a show ?thesis by simp
      next
        assume "(i, n, g) \<in> set (finditer_from m t (pos + max 1 n'))"
        with True Some a have
          "pos + max 1 n' \<le> i \<and> i < length t \<and> m t i = Some (n, g)"
          by (intro "1.IH"(2)) simp_all
        then show ?thesis by simp
      qed
    qed
  qed
qed

lemma in_order_mono: "in_order p ms \<Longrightarrow> q \<le> p \<Longrightarrow> in_order q ms"
  by (cases ms) auto

lemma finditer_from_in_order: "in_order pos (finditer_from m t pos)"
proof (induction m t pos rule: finditer_from.induct)
  case (1 m t pos)
  show ?case
  proof (cases "pos < length t")
    case False
    then show ?thesis
      by (simp add: finditer_from_unfold_end)
  next
    case True
    show ?thesis
    proof (cases "m t pos")
      case None
      with True have "in_order (pos + 1) (finditer_from m t (pos + 1))"
        by (rule "1.IH"(1))
      then have "in_order pos (finditer_from m t (pos + 1))"
        by (rule in_order_mono) simp
      with True None show ?thesis
        by (simp add: finditer_from_unfold_None)
    next
      case (Some a)
      obtain n g where a: "a = (n, g)"
        by (cases a)
      with True Some have "in_order (pos + max 1 n) (finditer_from m t (pos + max 1 n))"
        by (intro "1.IH"(2)) simp_all
      then have "in_order (pos + n) (finditer_from m t (pos + max 1 n))"
        by (rule in_order_mono) simp
      with True Some a show ?thesis
        by (simp add: finditer_from_unfold_Some)
    qed
  qed
qed

lemma finditer_from_complete:
  "pos \<le> p \<Longrightarrow> p < length t \<Longrightarrow> m t p \<noteq> None \<Longrightarrow>
     \<exists>(i, n, g) \<in> set (finditer_from m t pos). i \<le> p \<and> p < i + max 1 n"
proof (induction m t pos rule: finditer_from.induct)
  case (1 m t pos)
  from "1.prems" have True: "pos < length t"
    by simp
  show ?case
  proof (cases "m t pos")
    case None
    with "1.prems" have "p \<noteq> pos"
      by auto
    with "1.prems" have "pos + 1 \<le> p"
      by simp
    with True None "1.prems" have
      "\<exists>(i, n, g) \<in> set (finditer_from m t (pos + 1)). i \<le> p \<and> p < i + max 1 n"
      by (intro "1.IH"(1)) simp_all
    with True None show ?thesis
      by (simp add: finditer_from_unfold_None)
  next
    case (Some a)
    obtain n g where a: "a = (n, g)"
      by (cases a)
    have unfold: "finditer_from m t pos = (pos, n, g) # finditer_from m t (pos + max 1 n)"
      using True Some a by (simp add: finditer_from_unfold_Some)
    show ?thesis
    proof (cases "p < pos + max 1 n")
      case True
      with "1.prems"(1) unfold show ?thesis
        by simp
    next
      case False
      then have "pos + max 1 n \<le> p"
        by simp
      with \<open>pos < length t\<close> Some a "1.prems" have
        "\<exists>(i, n', g') \<in> set (finditer_from m t (pos + max 1 n)). i \<le> p \<and> p < i + max 1 n'"
        by (intro "1.IH"(2)) simp_all
      with unfold show ?thesis
        by auto
    qed
  qed
qed

lemma url_match_positive: "url_match s = Some n \<Longrightarrow> 0 < n"
  by (auto simp: url_match_def scheme_length_def Let_def split: if_splits option.splits)

lemma url_regex_Some:
  "url_regex t i = Some (n, g) \<Longrightarrow> url_match (drop i t) = Some n \<and> g = take n (drop i t)"
  by (auto simp: url_regex_def split: option.splits)

lemma url_regex_None: "url_regex t i = None \<longleftrightarrow> url_match (drop i t) = None"
  by (simp add: url_regex_def split: option.splits)

lemma url_match_bound: "url_match s = Some n \<Longrightarrow> n \<le> length s"
proof -
  assume m: "url_match s = Some n"
  then obtain k where k: "scheme_length s = Some k"
    and n: "n = k + length (takeWhile (\<lambda>c. \<not> isspace c) (drop k s))"
    by (auto simp: url_match_def Let_def split: option.splits if_splits)
  from k have "k \<le> length s"
    by (auto simp: scheme_length_def prefix_def split: if_splits)
  moreover have "length (takeWhile (\<lambda>c. \<not> isspace c) (drop k s)) \<le> length (drop k s)"
    by (rule length_takeWhile_le)
  ultimately show ?thesis
    using n by simp
qed

text \<open>
  C8. The URL list that \<open>extract_links_and_data\<close> returns holds, for each match of the
  URL pattern that the scan of the text finds, the matched characters as they stand in
  the text, once for each match and from left to right. No match is missed: a position
  where the pattern matches lies within one of these matches.
\<close>

theorem extracted_urls_are_the_matches:
  "fst (extract_links_and_data sent_tokenize text)
     = map (\<lambda>(i, n, g). take n (drop i text)) (finditer url_regex text)
   \<and> (\<forall>(i, n, g) \<in> set (finditer url_regex text).
         url_match (drop i text) = Some n \<and> i + n \<le> length text)
   \<and> in_order 0 (finditer url_regex text)
   \<and> (\<forall>p < length text. url_match (drop p text) \<noteq> None
         \<longrightarrow> (\<exists>(i, n, g) \<in> set (finditer url_regex text). i \<le> p \<and> p < i + n))"
proof (intro conjI allI impI)
  have sound: "url_match (drop i text) = Some n \<and> g = take n (drop i text) \<and> i < length text"
    if "(i, n, g) \<in> set (finditer url_regex text)" for i n g
  proof -
    from that have "i < length text \<and> url_regex text i = Some (n, g)"
      unfolding finditer_def by (auto dest: finditer_from_sound)
    then show ?thesis
      by (auto dest: url_regex_Some)
  qed
  have "map (\<lambda>(i, n, g). g) (finditer url_regex text)
          = map (\<lambda>(i, n, g). take n (drop i text)) (finditer url_regex text)"
    by (rule map_cong) (auto dest: sound)
  then show "fst (extract_links_and_data sent_tokenize text)
               = map (\<lambda>(i, n, g). take n (drop i text)) (finditer url_regex text)"
    by (simp add: extract_links_and_data_def findall_def)
  show "\<forall>(i, n, g) \<in> set (finditer url_regex text).
          url_match (drop i text) = Some n \<and> i + n \<le> length text"
  proof (intro ballI, clarify)
    fix i n g
    assume "(i, n, g) \<in> set (finditer url_regex text)"
    then have m: "url_match (drop i text) = Some n" and i: "i < length text"
      by (auto dest: sound)
    from m have "n \<le> length (drop i text)"
      by (rule url_match_bound)
    with i m show "url_match (drop i text) = Some n \<and> i + n \<le> length text"
      by simp
  qed
  show "in_order 0 (finditer url_regex text)"
    unfolding finditer_def by (rule finditer_from_in_order)
next
  fix p
  assume p: "p < length text" and m: "url_match (drop p text) \<noteq> None"
  from m have "url_regex text p \<noteq> None"
    by (simp add: url_regex_None)
  with p have "\<exists>(i, n, g) \<in> set (finditer_from url_regex text 0). i \<le> p \<and> p < i + max 1 n"
    by (intro finditer_from_complete) simp_all
  then obtain i n g where mem: "(i, n, g) \<in> set (finditer url_regex text)"
    and cover: "i \<le> p \<and> p < i + max 1 n"
    by (auto simp: finditer_def)
  from mem have "url_regex text i = Some (n, g)"
    unfolding finditer_def by (auto dest: finditer_from_sound)
  then have "0 < n"
    by (auto dest: url_regex_Some url_match_positive)
  with cover have "i \<le> p \<and> p < i + n"
    by (simp add: max_def)
  with mem show "\<exists>(i, n, g) \<in> set (finditer url_regex text). i \<le> p \<and> p < i + n"
    by blast
qed

theorem extracted_urls_are_the_matches_witness:
  "fst (extract_links_and_data whole_text ''see http://a.b/c and https://x.y. also'')
     = [''http://a.b/c'', ''https://x.y.'']
   \<and> (4, 12, ''http://a.b/c'') \<in> set (finditer url_regex ''see http://a.b/c and https://x.y. also'')
   \<and> url_match (drop 4 ''see http://a.b/c and https://x.y. also'') = Some 12
   \<and> (21::nat) < length ''see http://a.b/c and https://x.y. also''
   \<and> url_match (drop 21 ''see http://a.b/c and https://x.y. also'') \<noteq> None
   \<and> (\<exists>(i, n, g) \<in> set (finditer url_regex ''see http://a.b/c and https://x.y. also'').
         i \<le> 21 \<and> 21 < i + n)"
proof -
  let ?T = "''see http://a.b/c and https://x.y. also''"
  have v: "fst (extract_links_and_data whole_text ?T) = [''http://a.b/c'', ''https://x.y.'']"
    by code_simp
  have mem: "(4, 12, ''http://a.b/c'') \<in> set (finditer url_regex ?T)"
    by code_simp
  have p: "(21::nat) < length ?T"
    by simp
  have m: "url_match (drop 21 ?T) \<noteq> None"
    by code_simp
  note inst = extracted_urls_are_the_matches [of whole_text ?T]
  from inst mem have "url_match (drop 4 ?T) = Some 12"
    by blast
  moreover from inst p m have "\<exists>(i, n, g) \<in> set (finditer url_regex ?T). i \<le> 21 \<and> 21 < i + n"
    by blast
  ultimately show ?thesis
    using v mem p m by blast
qed

end
